theory Spec2Isabelle
  imports Main "HOL-Library.AList" "HOL-Library.Multiset"
begin

section \<open>Errors\<close>

text \<open>
  The exceptions of the sources, one constructor per raise site. The Python classes are
  coarser (most sites raise \<^verbatim>\<open>ValueError\<close> with a distinguishing message); the
  constructors carry the names the specification gives them.

  \<^item> \<open>ConstructionError\<close>: \<^verbatim>\<open>ValueError('Flows must have a name.')\<close>
  \<^item> \<open>TypeKindError\<close>: \<^verbatim>\<open>TypeError('Expected a Task; received ...')\<close>
  \<^item> \<open>DuplicateSlugError\<close>: \<^verbatim>\<open>ValueError('Task ... could not be added because a task with the slug ...')\<close>
  \<^item> \<open>DuplicateKeyError\<close>: \<^verbatim>\<open>ValueError('An edge to task ... with key ... already exists!')\<close>
  \<^item> \<open>NotFoundError\<close>: \<^verbatim>\<open>ValueError('Task ... was not found in the Flow')\<close>
  \<^item> \<open>CycleError\<close>: \<^verbatim>\<open>ValueError('Flows must be acyclic!')\<close>
  \<^item> \<open>NotStartedError\<close>: \<^verbatim>\<open>ValueError("Executor must be started")\<close>
  \<^item> \<open>NoWorkerError\<close>: the \<^verbatim>\<open>ValueError\<close> of \<^verbatim>\<open>worker_client\<close> outside a worker
  \<^item> \<open>AttributeError\<close>: attribute access on a missing attribute or on \<^verbatim>\<open>None\<close>
  \<^item> \<open>TupleArityError\<close>: \<^verbatim>\<open>TypeError('tuple expected at most 1 argument, got 6')\<close>
  \<^item> \<open>NotIterableError\<close>: \<^verbatim>\<open>TypeError("... object is not iterable")\<close>
  \<^item> \<open>TimeoutError\<close>: named by the specification; no site of the sources raises it
\<close>

datatype error =
    ConstructionError
  | TypeKindError
  | DuplicateSlugError
  | DuplicateKeyError
  | NotFoundError
  | CycleError
  | NotStartedError
  | NoWorkerError
  | AttributeError
  | TupleArityError
  | NotIterableError
  | TimeoutError

section \<open>The flow (\<^verbatim>\<open>core/flow.py\<close>)\<close>

text \<open>
  \<^verbatim>\<open>Task\<close>, \<^verbatim>\<open>Parameter\<close> and \<^verbatim>\<open>Edge\<close> are imported by \<^verbatim>\<open>flow.py\<close>; the
  model keeps the attributes \<^verbatim>\<open>flow.py\<close> reads. An object handed to the flow has a
  \<^verbatim>\<open>name\<close> and a \<^verbatim>\<open>slug\<close>, and is a plain task, a parameter (with \<^verbatim>\<open>required\<close>
  and \<^verbatim>\<open>default\<close>) or no task at all (what \<^verbatim>\<open>isinstance(task, Task)\<close> rejects).
  \<open>ident\<close> is the identity of the object: two task objects with equal attributes are
  still two objects, and \<^verbatim>\<open>in\<close> on \<^verbatim>\<open>self.tasks.values()\<close> tells them apart.
\<close>

datatype task_class = PlainTask | Parameter bool "string option" | NotATask

record task =
  ident :: nat
  name :: string
  slug :: string
  cls :: task_class

text \<open>
  An edge names its endpoints; equal fields make equal edges (the flow keeps them in a set).
\<close>

record edge =
  upstream_task :: string
  downstream_task :: string
  key :: "string option"

text \<open>
  The flow object. The dictionary \<^verbatim>\<open>tasks\<close> is an association list in insertion order
  with \<open>map_of\<close> as lookup; the set \<^verbatim>\<open>edges\<close> is a duplicate-free list. The
  schedule is an opaque value.
\<close>

record flow =
  flow_name :: string
  version :: "string option"
  project :: string
  description :: "string option"
  schedule :: string
  tasks :: "(string \<times> task) list"
  edges :: "edge list"
  concurrent_runs :: "nat option"
  cluster :: "string option"

text \<open>
  Methods take the flow and return their result, or the error they raise, together with
  the flow as the call leaves it.
\<close>

type_synonym 'a outcome = "(error + 'a) \<times> flow"

text \<open>
  Python sets as duplicate-free lists: \<^verbatim>\<open>s.add(x)\<close>, \<^verbatim>\<open>s.update(ys)\<close>; the
  comprehension \<^verbatim>\<open>set(...)\<close> is \<open>remdups\<close>, \<^verbatim>\<open>s.remove(x)\<close> is \<open>removeAll\<close>.
\<close>

definition set_add :: "'a \<Rightarrow> 'a list \<Rightarrow> 'a list" where
  "set_add x xs = (if x \<in> set xs then xs else xs @ [x])"

definition set_update :: "'a list \<Rightarrow> 'a list \<Rightarrow> 'a list" where
  "set_update xs ys = fold set_add ys xs"

definition dict_values :: "('k \<times> 'v) list \<Rightarrow> 'v list" where
  "dict_values d = map snd d"

text \<open>
  \<^verbatim>\<open>Flow.__init__\<close>, in the order of its parameters after \<^verbatim>\<open>name\<close>, \<^verbatim>\<open>version\<close>,
  \<^verbatim>\<open>project\<close>, \<^verbatim>\<open>schedule\<close>.
\<close>

definition Flow_init ::
  "string \<Rightarrow> string option \<Rightarrow> string \<Rightarrow> string \<Rightarrow> nat option \<Rightarrow> string option \<Rightarrow>
   string option \<Rightarrow> error + flow" where
  "Flow_init nm ver proj sched conc clus descr =
     (if nm = [] then Inl ConstructionError
      else Inr \<lparr>flow_name = nm, version = ver, project = proj, description = descr,
                schedule = sched, tasks = [], edges = [], concurrent_runs = conc,
                cluster = clus\<rparr>)"

definition isinstance_Task :: "task \<Rightarrow> bool" where
  "isinstance_Task t = (cls t \<noteq> NotATask)"

definition isinstance_Parameter :: "task \<Rightarrow> bool" where
  "isinstance_Parameter t = (case cls t of Parameter r d \<Rightarrow> True | _ \<Rightarrow> False)"

definition required :: "task \<Rightarrow> bool" where
  "required t = (case cls t of Parameter r d \<Rightarrow> r | _ \<Rightarrow> False)"

definition default :: "task \<Rightarrow> string option" where
  "default t = (case cls t of Parameter r d \<Rightarrow> d | _ \<Rightarrow> None)"

text \<open>
  \<^verbatim>\<open>_comps\<close> calls the builtin \<^verbatim>\<open>tuple\<close> with six positional arguments. The builtin
  takes at most one argument, an iterable; the arity is checked before anything else.
\<close>

datatype comp =
    CType
  | CStr string
  | COptStr "string option"
  | CTasks "(string \<times> task) list"
  | CEdges "edge list"
  | CEdge edge

fun comp_iter :: "comp \<Rightarrow> error + comp list" where
  "comp_iter CType = Inl NotIterableError"
| "comp_iter (CStr s) = Inr (map (\<lambda>c. CStr [c]) s)"
| "comp_iter (COptStr None) = Inl NotIterableError"
| "comp_iter (COptStr (Some s)) = Inr (map (\<lambda>c. CStr [c]) s)"
| "comp_iter (CTasks d) = Inr (map (\<lambda>(k, v). CStr k) d)"
| "comp_iter (CEdges es) = Inr (map CEdge es)"
| "comp_iter (CEdge e) = Inl NotIterableError"

fun tuple_builtin :: "comp list \<Rightarrow> error + comp list" where
  "tuple_builtin [] = Inr []"
| "tuple_builtin [x] = comp_iter x"
| "tuple_builtin (x # y # zs) = Inl TupleArityError"

definition comps :: "flow \<Rightarrow> error + comp list" where
  "comps f =
     tuple_builtin [CType, CStr (project f), CStr (flow_name f), COptStr (version f),
                    CTasks (tasks f), CEdges (edges f)]"

text \<open>
  \<^verbatim>\<open>__eq__\<close> compares the two \<^verbatim>\<open>_comps\<close>, evaluating \<^verbatim>\<open>self._comps\<close> first.
  Dictionaries and sets compare by content.
\<close>

fun comp_eq :: "comp \<Rightarrow> comp \<Rightarrow> bool" where
  "comp_eq (CTasks a) (CTasks b) = (set a = set b)"
| "comp_eq (CEdges a) (CEdges b) = (set a = set b)"
| "comp_eq x y = (x = y)"

definition flow_eq :: "flow \<Rightarrow> flow \<Rightarrow> error + bool" where
  "flow_eq f other =
     (case comps f of
        Inl e \<Rightarrow> Inl e
      | Inr a \<Rightarrow> (case comps other of Inl e \<Rightarrow> Inl e | Inr b \<Rightarrow> Inr (list_all2 comp_eq a b)))"

text \<open>
  \<^verbatim>\<open>get_task\<close> and \<^verbatim>\<open>add_task\<close>.
\<close>

definition get_task :: "string \<Rightarrow> flow \<Rightarrow> task outcome" where
  "get_task n f =
     (case map_of (tasks f) n of Some t \<Rightarrow> (Inr t, f) | None \<Rightarrow> (Inl NotFoundError, f))"

definition add_task :: "task \<Rightarrow> flow \<Rightarrow> unit outcome" where
  "add_task t f =
     (if \<not> isinstance_Task t then (Inl TypeKindError, f)
      else if slug t \<in> set (map slug (dict_values (tasks f))) then (Inl DuplicateSlugError, f)
      else (Inr (), f\<lparr>tasks := AList.update (name t) t (tasks f)\<rparr>))"

text \<open>
  The query methods accept a task or a bare name (\<^verbatim>\<open>isinstance(task, str)\<close>).
\<close>

datatype task_ref = ByName string | ByTask task

fun ref_name :: "task_ref \<Rightarrow> string" where
  "ref_name (ByName s) = s"
| "ref_name (ByTask t) = name t"

text \<open>
  The generator \<^verbatim>\<open>self.get_task(n) for n in ...\<close>: it stops at the first name that
  is not found.
\<close>

fun get_tasks :: "string list \<Rightarrow> flow \<Rightarrow> task list outcome" where
  "get_tasks [] f = (Inr [], f)"
| "get_tasks (n # ns) f =
     (case get_task n f of
        (Inl e, f') \<Rightarrow> (Inl e, f')
      | (Inr t, f') \<Rightarrow>
          (case get_tasks ns f' of
             (Inl e, f'') \<Rightarrow> (Inl e, f'')
           | (Inr ts, f'') \<Rightarrow> (Inr (t # ts), f'')))"

definition upstream_tasks :: "task_ref \<Rightarrow> flow \<Rightarrow> task list outcome" where
  "upstream_tasks r f =
     (case get_tasks (map upstream_task
                        (filter (\<lambda>e. downstream_task e = ref_name r) (edges f))) f of
        (Inl e, f') \<Rightarrow> (Inl e, f')
      | (Inr ts, f') \<Rightarrow> (Inr (remdups ts), f'))"

definition downstream_tasks :: "task_ref \<Rightarrow> flow \<Rightarrow> task list outcome" where
  "downstream_tasks r f =
     (case get_tasks (map downstream_task
                        (filter (\<lambda>e. upstream_task e = ref_name r) (edges f))) f of
        (Inl e, f') \<Rightarrow> (Inl e, f')
      | (Inr ts, f') \<Rightarrow> (Inr (remdups ts), f'))"

definition edges_to :: "task_ref \<Rightarrow> flow \<Rightarrow> edge list \<times> flow" where
  "edges_to r f = (remdups (filter (\<lambda>e. downstream_task e = ref_name r) (edges f)), f)"

definition edges_from :: "task_ref \<Rightarrow> flow \<Rightarrow> edge list \<times> flow" where
  "edges_from r f = (remdups (filter (\<lambda>e. upstream_task e = ref_name r) (edges f)), f)"

text \<open>
  The generator of \<^verbatim>\<open>root_tasks\<close> and \<^verbatim>\<open>terminal_tasks\<close>: the tasks \<open>t\<close> for which
  the query \<open>q\<close> (\<^verbatim>\<open>edges_to\<close> or \<^verbatim>\<open>edges_from\<close>) returns no edge.
\<close>

fun select_tasks ::
  "(task_ref \<Rightarrow> flow \<Rightarrow> edge list \<times> flow) \<Rightarrow> task list \<Rightarrow> flow \<Rightarrow> task list \<times> flow" where
  "select_tasks q [] f = ([], f)"
| "select_tasks q (t # ts) f =
     (case q (ByTask t) f of
        (es, f') \<Rightarrow>
          (case select_tasks q ts f' of
             (sel, f'') \<Rightarrow> (if es = [] then t # sel else sel, f'')))"

definition root_tasks :: "flow \<Rightarrow> task list \<times> flow" where
  "root_tasks f =
     (case select_tasks edges_to (dict_values (tasks f)) f of
        (sel, f') \<Rightarrow> (remdups sel, f'))"

definition terminal_tasks :: "flow \<Rightarrow> task list \<times> flow" where
  "terminal_tasks f =
     (case select_tasks edges_from (dict_values (tasks f)) f of
        (sel, f') \<Rightarrow> (remdups sel, f'))"

definition parameters ::
  "bool \<Rightarrow> flow \<Rightarrow> (string \<times> bool \<times> string option) list \<times> flow" where
  "parameters only_required f =
     (fold (\<lambda>t d. AList.update (name t) (required t, default t) d)
           (filter (\<lambda>t. isinstance_Parameter t \<and> (if only_required then required t else True))
                   (dict_values (tasks f)))
           [],
      f)"

text \<open>
  \<^verbatim>\<open>sorted_tasks\<close>, first half: the root tasks are recovered (names are looked up), then
  the working set grows by the downstream tasks of every task not yet seen, until
  \<^verbatim>\<open>seen == tasks\<close>. \<open>expand\<close> is the inner \<^verbatim>\<open>for\<close> loop over
  \<^verbatim>\<open>list(tasks.difference(seen))\<close>, \<open>closure_loop\<close> the \<^verbatim>\<open>while\<close> loop; a loop that
  does not return has the value \<open>None\<close>.
\<close>

fun recover :: "task_ref list \<Rightarrow> flow \<Rightarrow> task list outcome" where
  "recover [] f = (Inr [], f)"
| "recover (ByName n # rs) f =
     (case get_task n f of
        (Inl e, f') \<Rightarrow> (Inl e, f')
      | (Inr t, f') \<Rightarrow>
          (case recover rs f' of
             (Inl e, f'') \<Rightarrow> (Inl e, f'')
           | (Inr ts, f'') \<Rightarrow> (Inr (t # ts), f'')))"
| "recover (ByTask t # rs) f =
     (case recover rs f of
        (Inl e, f') \<Rightarrow> (Inl e, f')
      | (Inr ts, f') \<Rightarrow> (Inr (t # ts), f'))"

fun expand ::
  "task list \<Rightarrow> task list \<Rightarrow> task list \<Rightarrow> flow \<Rightarrow> (task list \<times> task list) outcome" where
  "expand [] ts seen f = (Inr (ts, seen), f)"
| "expand (t # rest) ts seen f =
     (case downstream_tasks (ByTask t) f of
        (Inl e, f') \<Rightarrow> (Inl e, f')
      | (Inr ds, f') \<Rightarrow> expand rest (set_update ts ds) (set_add t seen) f')"

partial_function (option) closure_loop ::
  "task list \<Rightarrow> task list \<Rightarrow> flow \<Rightarrow> (task list outcome) option" where
  "closure_loop ts seen f =
     (if set seen = set ts then Some (Inr ts, f)
      else (case expand (filter (\<lambda>t. t \<notin> set seen) ts) ts seen f of
              (Inl e, f') \<Rightarrow> Some (Inl e, f')
            | (Inr (ts', seen'), f') \<Rightarrow> closure_loop ts' seen' f'))"

text \<open>
  \<^verbatim>\<open>sorted_tasks\<close>, second half. \<open>sort_pass\<close> is one run of the \<^verbatim>\<open>for\<close> loop
  over the snapshot \<^verbatim>\<open>list(tasks)\<close>: a task with no upstream task in the remaining set
  \<open>ts\<close> is removed from it and appended to the output, and the flag is set.
\<close>

fun sort_pass ::
  "task list \<Rightarrow> task list \<Rightarrow> task list \<Rightarrow> bool \<Rightarrow> flow \<Rightarrow>
   (task list \<times> task list \<times> bool) outcome" where
  "sort_pass [] ts out acyc f = (Inr (ts, out, acyc), f)"
| "sort_pass (t # rest) ts out acyc f =
     (case upstream_tasks (ByTask t) f of
        (Inl e, f') \<Rightarrow> (Inl e, f')
      | (Inr ups, f') \<Rightarrow>
          if list_ex (\<lambda>u. u \<in> set ts) ups then sort_pass rest ts out acyc f'
          else sort_pass rest (removeAll t ts) (out @ [t]) True f')"

lemma sort_pass_length:
  "sort_pass rest ts out a f = (Inr (ts', out', a'), f') \<Longrightarrow> length ts' \<le> length ts"
proof (induction rest arbitrary: ts out a f)
  case Nil
  then show ?case by simp
next
  case (Cons t rest)
  obtain r g where up: "upstream_tasks (ByTask t) f = (r, g)" by (cases "upstream_tasks (ByTask t) f")
  show ?case
  proof (cases r)
    case (Inl e)
    with Cons.prems up show ?thesis by simp
  next
    case (Inr ups)
    show ?thesis
    proof (cases "list_ex (\<lambda>u. u \<in> set ts) ups")
      case True
      with Cons.prems Inr up have "sort_pass rest ts out a g = (Inr (ts', out', a'), f')" by simp
      then show ?thesis by (rule Cons.IH)
    next
      case False
      with Cons.prems Inr up
      have "sort_pass rest (removeAll t ts) (out @ [t]) True g = (Inr (ts', out', a'), f')"
        by simp
      then have "length ts' \<le> length (removeAll t ts)" by (rule Cons.IH)
      also have "\<dots> \<le> length ts" by (simp add: removeAll_filter_not_eq)
      finally show ?thesis .
    qed
  qed
qed

lemma sort_pass_progress:
  "sort_pass rest ts out False f = (Inr (ts', out', True), f') \<Longrightarrow> set rest \<subseteq> set ts \<Longrightarrow>
   length ts' < length ts"
proof (induction rest arbitrary: out f)
  case Nil
  then show ?case by simp
next
  case (Cons t rest)
  obtain r g where up: "upstream_tasks (ByTask t) f = (r, g)" by (cases "upstream_tasks (ByTask t) f")
  show ?case
  proof (cases r)
    case (Inl e)
    with Cons.prems up show ?thesis by simp
  next
    case (Inr ups)
    show ?thesis
    proof (cases "list_ex (\<lambda>u. u \<in> set ts) ups")
      case True
      with Cons.prems Inr up have "sort_pass rest ts out False g = (Inr (ts', out', True), f')"
        by simp
      with Cons.prems(2) show ?thesis by (intro Cons.IH) auto
    next
      case False
      with Cons.prems Inr up
      have "sort_pass rest (removeAll t ts) (out @ [t]) True g = (Inr (ts', out', True), f')"
        by simp
      then have "length ts' \<le> length (removeAll t ts)" by (rule sort_pass_length)
      also from Cons.prems(2) have "\<dots> < length ts"
        by (auto simp: removeAll_filter_not_eq intro!: length_filter_less [where x = t])
      finally show ?thesis .
    qed
  qed
qed

text \<open>
  The \<^verbatim>\<open>while tasks:\<close> loop: a pass that leaves the flag unset raises
  \<^verbatim>\<open>ValueError('Flows must be acyclic!')\<close>.
\<close>

function sort_loop :: "task list \<Rightarrow> task list \<Rightarrow> flow \<Rightarrow> task list outcome" where
  "sort_loop ts out f =
     (if ts = [] then (Inr out, f)
      else (case sort_pass ts ts out False f of
              (Inl e, f') \<Rightarrow> (Inl e, f')
            | (Inr (ts', out', acyc), f') \<Rightarrow>
                if \<not> acyc then (Inl CycleError, f') else sort_loop ts' out' f'))"
  by pat_completeness auto
termination
  by (relation "measure (\<lambda>(ts, out, f). length ts)")
     (auto dest: sort_pass_progress [OF sym])

text \<open>
  \<^verbatim>\<open>sorted_tasks\<close>. The argument \<open>enum\<close> is the order in which Python enumerates a set:
  \<open>enum xs\<close> lists the set with the elements \<open>xs\<close> in iteration order.
  \<open>sorted_tasks_all\<close> is the call with \<^verbatim>\<open>root_tasks=None\<close>, which never enters the
  closure loop.
\<close>

definition sorted_tasks_all :: "(task list \<Rightarrow> task list) \<Rightarrow> flow \<Rightarrow> task list outcome" where
  "sorted_tasks_all enum f = sort_loop (enum (remdups (dict_values (tasks f)))) [] f"

definition sorted_tasks ::
  "(task list \<Rightarrow> task list) \<Rightarrow> task_ref list option \<Rightarrow> flow \<Rightarrow> (task list outcome) option" where
  "sorted_tasks enum roots f =
     (case roots of
        None \<Rightarrow> Some (sorted_tasks_all enum f)
      | Some rs \<Rightarrow>
          (case recover rs f of
             (Inl e, f') \<Rightarrow> Some (Inl e, f')
           | (Inr ts, f') \<Rightarrow>
               (case closure_loop (remdups ts) [] f' of
                  None \<Rightarrow> None
                | Some (Inl e, f'') \<Rightarrow> Some (Inl e, f'')
                | Some (Inr cl, f'') \<Rightarrow> Some (sort_loop (enum cl) [] f''))))"

text \<open>
  \<^verbatim>\<open>add_edge\<close>. \<open>add_endpoint\<close> is the statement
  \<^verbatim>\<open>if task not in self.tasks.values(): self.add_task(task)\<close>. The edge is added to the
  set before \<^verbatim>\<open>self.sorted_tasks()\<close> runs, and nothing removes it when that call raises.
\<close>

definition add_endpoint :: "task \<Rightarrow> flow \<Rightarrow> unit outcome" where
  "add_endpoint t f = (if t \<notin> set (dict_values (tasks f)) then add_task t f else (Inr (), f))"

definition add_edge ::
  "(task list \<Rightarrow> task list) \<Rightarrow> task \<Rightarrow> task \<Rightarrow> string option \<Rightarrow> flow \<Rightarrow> unit outcome" where
  "add_edge enum up down k f =
     (let e = \<lparr>upstream_task = name up, downstream_task = name down, key = k\<rparr> in
      case add_endpoint up f of
        (Inl err, f1) \<Rightarrow> (Inl err, f1)
      | (Inr u1, f1) \<Rightarrow>
          (case add_endpoint down f1 of
             (Inl err, f2) \<Rightarrow> (Inl err, f2)
           | (Inr u2, f2) \<Rightarrow>
               if key e \<noteq> None \<and>
                  filter (\<lambda>x. downstream_task x = name down \<and> key x = key e) (edges f2) \<noteq> []
               then (Inl DuplicateKeyError, f2)
               else
                 (case sorted_tasks_all enum (f2\<lparr>edges := set_add e (edges f2)\<rparr>) of
                    (Inl err, f3) \<Rightarrow> (Inl err, f3)
                  | (Inr srt, f3) \<Rightarrow> (Inr (), f3))))"

text \<open>
  \<^verbatim>\<open>set_dependencies\<close>: its three loops are one sequence of \<^verbatim>\<open>add_edge\<close> calls that
  stops at the first error; \<open>as_task\<close> is the coercion of \<^verbatim>\<open>prefect.utilities.tasks\<close>.
\<close>

fun add_edges ::
  "(task list \<Rightarrow> task list) \<Rightarrow> (task \<times> task \<times> string option) list \<Rightarrow> flow \<Rightarrow> unit outcome" where
  "add_edges enum [] f = (Inr (), f)"
| "add_edges enum ((up, down, k) # rest) f =
     (case add_edge enum up down k f of
        (Inl err, f') \<Rightarrow> (Inl err, f')
      | (Inr u, f') \<Rightarrow> add_edges enum rest f')"

definition set_dependencies ::
  "(task list \<Rightarrow> task list) \<Rightarrow> ('v \<Rightarrow> task) \<Rightarrow> task \<Rightarrow> task list \<Rightarrow> task list \<Rightarrow>
   (string \<times> 'v) list \<Rightarrow> flow \<Rightarrow> unit outcome" where
  "set_dependencies enum as_task t ups downs results f =
     (case add_endpoint t f of
        (Inl err, f') \<Rightarrow> (Inl err, f')
      | (Inr u, f') \<Rightarrow>
          add_edges enum
            (map (\<lambda>u. (u, t, None)) ups @ map (\<lambda>d. (t, d, None)) downs @
             map (\<lambda>(k, v). (as_task v, t, Some k)) results)
            f')"

text \<open>
  \<^verbatim>\<open>sub_flow\<close>: a copy of the flow with fresh, empty containers receives the sorted
  tasks through \<^verbatim>\<open>add_task\<close> and then every edge whose endpoints are both keys of the
  new task dictionary. The original flow is returned beside the new one.
\<close>

fun add_tasks :: "task list \<Rightarrow> flow \<Rightarrow> unit outcome" where
  "add_tasks [] f = (Inr (), f)"
| "add_tasks (t # ts) f =
     (case add_task t f of
        (Inl err, f') \<Rightarrow> (Inl err, f')
      | (Inr u, f') \<Rightarrow> add_tasks ts f')"

definition sub_flow ::
  "(task list \<Rightarrow> task list) \<Rightarrow> task_ref list option \<Rightarrow> flow \<Rightarrow> ((error + flow) \<times> flow) option" where
  "sub_flow enum roots f =
     (case sorted_tasks enum roots f of
        None \<Rightarrow> None
      | Some (Inl err, f') \<Rightarrow> Some (Inl err, f')
      | Some (Inr srt, f') \<Rightarrow>
          (case add_tasks srt (f'\<lparr>tasks := [], edges := []\<rparr>) of
             (Inl err, sf) \<Rightarrow> Some (Inl err, f')
           | (Inr u, sf) \<Rightarrow>
               Some (Inr (sf\<lparr>edges :=
                              fold set_add
                                (filter (\<lambda>e. map_of (tasks sf) (upstream_task e) \<noteq> None \<and>
                                             map_of (tasks sf) (downstream_task e) \<noteq> None)
                                        (edges f'))
                                []\<rparr>),
                     f')))"

section \<open>The executor (\<^verbatim>\<open>engine/executors/dask.py\<close>)\<close>

subsection \<open>The backend's values\<close>

text \<open>
  The objects that travel through \<^verbatim>\<open>distributed.Client\<close>: a concrete result, a
  future (with the time the backend still needs to resolve it, and the object it resolves
  to, which may again hold futures), or a list of such objects.
\<close>

datatype 'a dval =
    Conc 'a
  | Fut nat "'a dval"
  | Lst "'a dval list"

text \<open>
  One call of \<^verbatim>\<open>Client.gather\<close> on one object: a future is replaced by what it
  resolves to (blocking for as long as it takes; no timeout is passed), a list is
  traversed, anything else is returned as it is.
\<close>

fun gather1 :: "'a dval \<Rightarrow> 'a dval" where
  "gather1 (Conc a) = Conc a"
| "gather1 (Fut d v) = v"
| "gather1 (Lst vs) = Lst (map gather1 vs)"

definition gather :: "'a dval list \<Rightarrow> 'a dval list" where
  "gather futures = map gather1 futures"

text \<open>An object is concrete when no future is left anywhere inside it.\<close>

fun concrete :: "'a dval \<Rightarrow> bool" where
  "concrete (Conc a) = True"
| "concrete (Fut d v) = False"
| "concrete (Lst vs) = list_all concrete vs"


subsection \<open>The executor object\<close>

text \<open>
  The attribute \<^verbatim>\<open>client\<close> does not exist after \<^verbatim>\<open>__init__\<close>; \<^verbatim>\<open>start\<close> binds it
  to a client and its \<^verbatim>\<open>finally\<close> block sets it to \<^verbatim>\<open>None\<close>.
\<close>

datatype client_attr = NoAttribute | NoneValue | ClientObject

record executor =
  address :: "string option"
  processes :: bool
  debug :: bool
  is_started :: bool
  client :: client_attr

definition DaskExecutor_init :: "string option \<Rightarrow> bool \<Rightarrow> bool \<Rightarrow> executor" where
  "DaskExecutor_init addr procs dbg =
     \<lparr>address = addr, processes = procs, debug = dbg, is_started = False,
      client = NoAttribute\<rparr>"

text \<open>Entering and leaving the scope of \<^verbatim>\<open>start()\<close>.\<close>

definition start_enter :: "executor \<Rightarrow> executor" where
  "start_enter ex = ex\<lparr>client := ClientObject, is_started := True\<rparr>"

definition start_exit :: "executor \<Rightarrow> executor" where
  "start_exit ex = ex\<lparr>client := NoneValue, is_started := False\<rparr>"

text \<open>\<^verbatim>\<open>__getstate__\<close> followed by \<^verbatim>\<open>__setstate__\<close>: the copy that reaches a worker.\<close>

definition pickled :: "executor \<Rightarrow> executor" where
  "pickled ex = ex\<lparr>client := NoAttribute\<rparr>"

definition hasattr_client :: "executor \<Rightarrow> bool" where
  "hasattr_client ex = (client ex \<noteq> NoAttribute)"

text \<open>
  \<^verbatim>\<open>submit\<close>. The argument \<open>in_worker\<close> says whether the call runs inside a scheduled
  call (where \<^verbatim>\<open>worker_client\<close> succeeds), \<open>d\<close> is the time the backend will need
  for the call. The result is \<open>None\<close> where the method falls off its end.
\<close>

definition submit ::
  "executor \<Rightarrow> bool \<Rightarrow> nat \<Rightarrow> ('b \<Rightarrow> 'a dval) \<Rightarrow> 'b \<Rightarrow> error + 'a dval option" where
  "submit ex in_worker d fn args =
     (if is_started ex \<and> hasattr_client ex then
        (case client ex of
           ClientObject \<Rightarrow> Inr (Some (Fut d (fn args)))
         | _ \<Rightarrow> Inl AttributeError)
      else if is_started ex then
        (if in_worker then Inr (Some (Fut d (fn args))) else Inl NoWorkerError)
      else Inr None)"

text \<open>
  \<^verbatim>\<open>map\<close>, with \<open>states\<close> the list that \<^verbatim>\<open>dict_to_list(upstream_states)\<close> yields.
  The inner \<^verbatim>\<open>mapper\<close> runs on a worker and submits one call per element.
\<close>

definition mapper :: "nat \<Rightarrow> ('b \<Rightarrow> 'a dval) \<Rightarrow> 'b list \<Rightarrow> 'a dval" where
  "mapper d fn states = Lst (map (\<lambda>elem. Fut d (fn elem)) states)"

definition map_exec ::
  "executor \<Rightarrow> bool \<Rightarrow> nat \<Rightarrow> ('b \<Rightarrow> 'a dval) \<Rightarrow> 'b list \<Rightarrow> error + 'a dval" where
  "map_exec ex in_worker d fn states =
     (if is_started ex \<and> hasattr_client ex then
        (case client ex of
           ClientObject \<Rightarrow> Inr (Fut d (mapper d fn states))
         | _ \<Rightarrow> Inl AttributeError)
      else if is_started ex then
        (if in_worker then Inr (Fut d (mapper d fn states)) else Inl NoWorkerError)
      else Inl NotStartedError)"

text \<open>
  \<^verbatim>\<open>wait\<close>: reads \<^verbatim>\<open>self.client.futures\<close>, then gathers four times. The parameter
  \<open>timeout\<close> is not used by the body.
\<close>

definition wait :: "executor \<Rightarrow> 'a dval list \<Rightarrow> nat option \<Rightarrow> error + 'a dval list" where
  "wait ex futures timeout =
     (case client ex of
        ClientObject \<Rightarrow> Inr (gather (gather (gather (gather futures))))
      | _ \<Rightarrow> Inl AttributeError)"

section \<open>Properties of the flow\<close>

lemma get_task_frame: "snd (get_task n f) = f"
  by (simp add: get_task_def split: option.splits)

lemma get_tasks_frame: "snd (get_tasks ns f) = f"
proof (induction ns arbitrary: f)
  case Nil
  show ?case by simp
next
  case (Cons n ns)
  obtain r g where g: "get_task n f = (r, g)" by (cases "get_task n f")
  with get_task_frame [of n f] have [simp]: "g = f" by simp
  obtain r' g' where g': "get_tasks ns f = (r', g')" by (cases "get_tasks ns f")
  with Cons.IH [of f] have [simp]: "g' = f" by simp
  from g g' show ?case by (simp split: sum.splits)
qed

lemma upstream_tasks_frame: "snd (upstream_tasks r f) = f"
proof -
  let ?ns = "map upstream_task (filter (\<lambda>e. downstream_task e = ref_name r) (edges f))"
  obtain x g where g: "get_tasks ?ns f = (x, g)" by (cases "get_tasks ?ns f")
  with get_tasks_frame [of ?ns f] have "g = f" by simp
  with g show ?thesis by (simp add: upstream_tasks_def split: sum.splits)
qed

lemma downstream_tasks_frame: "snd (downstream_tasks r f) = f"
proof -
  let ?ns = "map downstream_task (filter (\<lambda>e. upstream_task e = ref_name r) (edges f))"
  obtain x g where g: "get_tasks ?ns f = (x, g)" by (cases "get_tasks ?ns f")
  with get_tasks_frame [of ?ns f] have "g = f" by simp
  with g show ?thesis by (simp add: downstream_tasks_def split: sum.splits)
qed

lemma select_tasks_frame:
  assumes q: "\<And>r g. snd (q r g) = g"
  shows "snd (select_tasks q ts f) = f"
proof (induction ts arbitrary: f)
  case Nil
  show ?case by simp
next
  case (Cons t ts)
  obtain es g where g: "q (ByTask t) f = (es, g)" by (cases "q (ByTask t) f")
  with q [of "ByTask t" f] have [simp]: "g = f" by simp
  obtain sel g' where g': "select_tasks q ts f = (sel, g')" by (cases "select_tasks q ts f")
  with Cons.IH [of f] have [simp]: "g' = f" by simp
  from g g' show ?case by simp
qed

lemma edges_to_frame: "snd (edges_to r f) = f"
  by (simp add: edges_to_def)

lemma edges_from_frame: "snd (edges_from r f) = f"
  by (simp add: edges_from_def)

lemma root_tasks_frame: "snd (root_tasks f) = f"
  using select_tasks_frame [of edges_to "dict_values (tasks f)" f, OF edges_to_frame]
  by (auto simp: root_tasks_def split: prod.splits)

lemma terminal_tasks_frame: "snd (terminal_tasks f) = f"
  using select_tasks_frame [of edges_from "dict_values (tasks f)" f, OF edges_from_frame]
  by (auto simp: terminal_tasks_def split: prod.splits)

lemma parameters_frame: "snd (parameters b f) = f"
  by (simp add: parameters_def)

lemma sort_pass_frame: "snd (sort_pass rest ts out a f) = f"
proof (induction rest arbitrary: ts out a)
  case Nil
  show ?case by simp
next
  case (Cons t rest)
  obtain r g where g: "upstream_tasks (ByTask t) f = (r, g)"
    by (cases "upstream_tasks (ByTask t) f")
  with upstream_tasks_frame [of "ByTask t" f] have [simp]: "g = f" by simp
  from g show ?case by (simp add: Cons.IH split: sum.splits)
qed

declare sort_loop.simps [simp del]

lemma sort_loop_frame: "snd (sort_loop ts out f) = f"
proof (induction ts out f rule: sort_loop.induct)
  case (1 ts out f)
  note eq = sort_loop.simps [of ts out f]
  obtain r g where g: "sort_pass ts ts out False f = (r, g)"
    by (cases "sort_pass ts ts out False f")
  with sort_pass_frame [of ts ts out False f] have gf: "g = f" by simp
  show ?case
  proof (cases "ts = []")
    case True
    then show ?thesis by (simp add: sort_loop.simps)
  next
    case False
    show ?thesis
    proof (cases r)
      case (Inl e)
      with g gf False show ?thesis by (simp add: eq)
    next
      case (Inr x)
      obtain ts' out' acyc where x: "x = (ts', out', acyc)" by (cases x)
      show ?thesis
      proof (cases acyc)
        case True
        with "1.IH" [OF False g [symmetric, unfolded Inr x] refl refl] g gf False Inr x
        show ?thesis by (simp add: eq)
      next
        case no: False
        with g gf False Inr x show ?thesis by (simp add: eq)
      qed
    qed
  qed
qed

lemma sorted_tasks_all_frame: "snd (sorted_tasks_all enum f) = f"
  by (simp add: sorted_tasks_all_def sort_loop_frame)

lemma recover_frame: "snd (recover rs f) = f"
proof (induction rs f rule: recover.induct)
  case (1 f)
  show ?case by simp
next
  case (2 n rs f)
  obtain r g where g: "get_task n f = (r, g)" by (cases "get_task n f")
  with get_task_frame [of n f] have gf: "g = f" by simp
  show ?case
  proof (cases r)
    case (Inl e)
    with g gf show ?thesis by simp
  next
    case (Inr t)
    with "2.IH" [OF g [symmetric, unfolded Inr]] g gf show ?thesis
      by (auto split: prod.splits sum.splits)
  qed
next
  case (3 t rs f)
  then show ?case by (auto split: prod.splits sum.splits)
qed

lemma expand_frame: "snd (expand rest ts seen f) = f"
proof (induction rest arbitrary: ts seen)
  case Nil
  show ?case by simp
next
  case (Cons t rest)
  obtain r g where g: "downstream_tasks (ByTask t) f = (r, g)"
    by (cases "downstream_tasks (ByTask t) f")
  with downstream_tasks_frame [of "ByTask t" f] have [simp]: "g = f" by simp
  from g show ?case by (simp add: Cons.IH split: sum.splits)
qed

lemma closure_loop_frame:
  assumes "closure_loop ts seen f = Some res"
  shows "snd res = f"
proof (rule closure_loop.raw_induct [where P = "\<lambda>ts seen f res. snd res = f", OF _ assms])
  fix loop :: "task list \<Rightarrow> task list \<Rightarrow> flow \<Rightarrow> (task list outcome) option"
  fix ts seen f res
  assume IH: "\<And>ts seen f res. loop ts seen f = Some res \<Longrightarrow> snd res = f"
  assume body:
    "(if set seen = set ts then Some (Inr ts, f)
      else (case expand (filter (\<lambda>t. t \<notin> set seen) ts) ts seen f of
              (Inl e, f') \<Rightarrow> Some (Inl e, f')
            | (Inr (ts', seen'), f') \<Rightarrow> loop ts' seen' f')) = Some res"
  let ?new = "filter (\<lambda>t. t \<notin> set seen) ts"
  obtain r g where g: "expand ?new ts seen f = (r, g)" by (cases "expand ?new ts seen f")
  with expand_frame [of ?new ts seen f] have gf: "g = f" by simp
  show "snd res = f"
  proof (cases "set seen = set ts")
    case True
    with body show ?thesis by auto
  next
    case False
    show ?thesis
    proof (cases r)
      case (Inl e)
      with body False g gf show ?thesis by auto
    next
      case (Inr x)
      obtain ts' seen' where x: "x = (ts', seen')" by (cases x)
      with body False g gf Inr have "loop ts' seen' f = Some res" by simp
      then show ?thesis by (rule IH)
    qed
  qed
qed

lemma sorted_tasks_frame: "sorted_tasks enum roots f = Some res \<Longrightarrow> snd res = f"
proof (cases roots)
  case None
  assume "sorted_tasks enum roots f = Some res"
  with None show ?thesis by (auto simp: sorted_tasks_def sorted_tasks_all_frame)
next
  case (Some rs)
  assume a: "sorted_tasks enum roots f = Some res"
  obtain r g where g: "recover rs f = (r, g)" by (cases "recover rs f")
  with recover_frame [of rs f] have gf: "g = f" by simp
  show ?thesis
  proof (cases r)
    case (Inl e)
    with a Some g gf show ?thesis by (auto simp: sorted_tasks_def)
  next
    case (Inr ts)
    show ?thesis
    proof (cases "closure_loop (remdups ts) [] f")
      case None
      with a Some g gf Inr show ?thesis by (simp add: sorted_tasks_def)
    next
      case cl: (Some y)
      obtain r' g' where y: "y = (r', g')" by (cases y)
      from closure_loop_frame [OF cl] y have gf': "g' = f" by simp
      show ?thesis
      proof (cases r')
        case (Inl e)
        with a Some g gf Inr cl y gf' show ?thesis by (auto simp: sorted_tasks_def)
      next
        case inr: (Inr c)
        with a Some g gf Inr cl y gf' have "res = sort_loop (enum c) [] f"
          by (auto simp: sorted_tasks_def)
        then show ?thesis by (simp add: sort_loop_frame)
      qed
    qed
  qed
qed

text \<open>
  C10. Every query method returns the flow it was called on, whether it returns a value
  or raises: \<^verbatim>\<open>get_task\<close>, \<^verbatim>\<open>upstream_tasks\<close>, \<^verbatim>\<open>downstream_tasks\<close>, \<^verbatim>\<open>edges_to\<close>,
  \<^verbatim>\<open>edges_from\<close>, \<^verbatim>\<open>root_tasks\<close>, \<^verbatim>\<open>terminal_tasks\<close>, \<^verbatim>\<open>parameters\<close> and
  \<^verbatim>\<open>sorted_tasks\<close> (with and without root tasks).
\<close>

theorem queries_leave_flow_unchanged:
  "snd (get_task n f) = f \<and>
   snd (upstream_tasks r f) = f \<and>
   snd (downstream_tasks r f) = f \<and>
   snd (edges_to r f) = f \<and>
   snd (edges_from r f) = f \<and>
   snd (root_tasks f) = f \<and>
   snd (terminal_tasks f) = f \<and>
   snd (parameters b f) = f \<and>
   snd (sorted_tasks_all enum f) = f \<and>
   (\<forall>res. sorted_tasks enum roots f = Some res \<longrightarrow> snd res = f)"
  by (simp add: get_task_frame upstream_tasks_frame downstream_tasks_frame edges_to_frame
      edges_from_frame root_tasks_frame terminal_tasks_frame parameters_frame
      sorted_tasks_all_frame sorted_tasks_frame)

text \<open>
  C4. Comparing two flows never returns a boolean: \<^verbatim>\<open>self._comps\<close> raises the
  \<^verbatim>\<open>TypeError\<close> of \<^verbatim>\<open>tuple\<close> called with six arguments, whatever the two flows are.
\<close>

theorem flow_eq_raises: "flow_eq f other = Inl TupleArityError"
  by (simp add: flow_eq_def comps_def)

subsection \<open>Topological sorting\<close>

text \<open>
  \<open>position x xs\<close> is the index of the first occurrence of \<open>x\<close> in \<open>xs\<close> (the
  length of \<open>xs\<close> when there is none): \<open>x\<close> appears strictly before \<open>y\<close> when its
  position is smaller.
\<close>

primrec position :: "'a \<Rightarrow> 'a list \<Rightarrow> nat" where
  "position x [] = 0"
| "position x (y # ys) = (if y = x then 0 else Suc (position x ys))"

text \<open>
  The shape every flow built through \<^verbatim>\<open>add_task\<close> and \<^verbatim>\<open>add_edge\<close> has: the keys of
  the task dictionary are distinct, each task is stored under its own name
  (\<^verbatim>\<open>self.tasks[task.name] = task\<close>), and the endpoints of every edge are keys of the
  dictionary.
\<close>

definition well_formed :: "flow \<Rightarrow> bool" where
  "well_formed f =
     (distinct (map fst (tasks f)) \<and>
      list_all (\<lambda>(n, t). name t = n) (tasks f) \<and>
      list_all (\<lambda>e. upstream_task e \<in> set (map fst (tasks f)) \<and>
                     downstream_task e \<in> set (map fst (tasks f))) (edges f))"

text \<open>
  The relation \<^verbatim>\<open>upstream_task -> downstream_task\<close> on task names; the flow is acyclic
  when this relation is.
\<close>

definition edge_rel :: "flow \<Rightarrow> (string \<times> string) set" where
  "edge_rel f = set (map (\<lambda>e. (upstream_task e, downstream_task e)) (edges f))"

text \<open>
  What is assumed of the iteration order of a set: every element is listed once.
\<close>

definition enumerates :: "('a list \<Rightarrow> 'a list) \<Rightarrow> bool" where
  "enumerates enum = (\<forall>xs. mset (enum xs) = mset xs)"

lemma position_less: "position x xs < length xs \<longleftrightarrow> x \<in> set xs"
  by (induction xs) auto

lemma position_le: "position x xs \<le> length xs"
  by (induction xs) auto

lemma position_append_in: "x \<in> set xs \<Longrightarrow> position x (xs @ ys) = position x xs"
  by (induction xs) auto

lemma position_append_notin: "x \<notin> set xs \<Longrightarrow> position x (xs @ ys) = length xs + position x ys"
  by (induction xs) auto

lemma position_map_inj:
  "inj_on g (insert x (set xs)) \<Longrightarrow> position (g x) (map g xs) = position x xs"
  by (induction xs) (auto simp: inj_on_def)

lemma wf_lookup:
  assumes "well_formed f" and "map_of (tasks f) n = Some t"
  shows "name t = n" and "t \<in> set (dict_values (tasks f))"
proof -
  from assms(2) have m: "(n, t) \<in> set (tasks f)" by (rule map_of_SomeD)
  with assms(1) show "name t = n" by (auto simp: well_formed_def list_all_iff)
  from m show "t \<in> set (dict_values (tasks f))" by (force simp: dict_values_def)
qed

lemma wf_value:
  assumes "well_formed f" and "t \<in> set (dict_values (tasks f))"
  shows "map_of (tasks f) (name t) = Some t"
proof -
  from assms(2) obtain n where m: "(n, t) \<in> set (tasks f)" by (auto simp: dict_values_def)
  with assms(1) have "name t = n" by (auto simp: well_formed_def list_all_iff)
  moreover from assms(1) m have "map_of (tasks f) n = Some t"
    by (simp add: well_formed_def)
  ultimately show ?thesis by simp
qed

lemma wf_values_distinct:
  assumes "well_formed f"
  shows "distinct (dict_values (tasks f))" and "inj_on name (set (dict_values (tasks f)))"
proof -
  have eq: "map name (dict_values (tasks f)) = map fst (tasks f)"
    using assms by (auto simp: well_formed_def dict_values_def list_all_iff)
  with assms have d: "distinct (map name (dict_values (tasks f)))" by (simp add: well_formed_def)
  then show "distinct (dict_values (tasks f))" by (rule distinct_map [THEN iffD1, THEN conjunct1])
  from d show "inj_on name (set (dict_values (tasks f)))"
    by (rule distinct_map [THEN iffD1, THEN conjunct2])
qed

lemma get_tasks_value:
  assumes "set ns \<subseteq> set (map fst (tasks f))"
  shows "get_tasks ns f = (Inr (map (\<lambda>n. the (map_of (tasks f) n)) ns), f)"
  using assms
proof (induction ns)
  case Nil
  show ?case by simp
next
  case (Cons n ns)
  then have "n \<in> fst ` set (tasks f)" by simp
  then obtain t where "map_of (tasks f) n = Some t"
    by (metis domD dom_map_of_conv_image_fst)
  with Cons show ?case by (simp add: get_task_def)
qed

text \<open>
  The tasks directly upstream and downstream of the task named \<open>n\<close>, as sets.
\<close>

definition ups :: "flow \<Rightarrow> string \<Rightarrow> task set" where
  "ups f n = {t. \<exists>e \<in> set (edges f). downstream_task e = n \<and>
                   map_of (tasks f) (upstream_task e) = Some t}"

definition downs :: "flow \<Rightarrow> string \<Rightarrow> task set" where
  "downs f n = {t. \<exists>e \<in> set (edges f). upstream_task e = n \<and>
                     map_of (tasks f) (downstream_task e) = Some t}"

lemma upstream_tasks_value:
  assumes "well_formed f"
  shows "\<exists>us. upstream_tasks r f = (Inr us, f) \<and> set us = ups f (ref_name r) \<and> distinct us"
proof -
  let ?es = "filter (\<lambda>e. downstream_task e = ref_name r) (edges f)"
  let ?ns = "map upstream_task ?es"
  from assms have sub: "set ?ns \<subseteq> set (map fst (tasks f))"
    by (auto simp: well_formed_def list_all_iff)
  have dom: "\<And>e. e \<in> set (edges f) \<Longrightarrow> \<exists>t. map_of (tasks f) (upstream_task e) = Some t"
  proof -
    fix e assume "e \<in> set (edges f)"
    with assms have "upstream_task e \<in> fst ` set (tasks f)"
      by (auto simp: well_formed_def list_all_iff)
    then show "\<exists>t. map_of (tasks f) (upstream_task e) = Some t"
      by (metis domD dom_map_of_conv_image_fst)
  qed
  have "set (map (\<lambda>n. the (map_of (tasks f) n)) ?ns) = ups f (ref_name r)"
    using dom by (force simp: ups_def)
  with get_tasks_value [OF sub] show ?thesis
    by (simp add: upstream_tasks_def)
qed

lemma downstream_tasks_value:
  assumes "well_formed f"
  shows "\<exists>ds. downstream_tasks r f = (Inr ds, f) \<and> set ds = downs f (ref_name r) \<and> distinct ds"
proof -
  let ?es = "filter (\<lambda>e. upstream_task e = ref_name r) (edges f)"
  let ?ns = "map downstream_task ?es"
  from assms have sub: "set ?ns \<subseteq> set (map fst (tasks f))"
    by (auto simp: well_formed_def list_all_iff)
  have dom: "\<And>e. e \<in> set (edges f) \<Longrightarrow> \<exists>t. map_of (tasks f) (downstream_task e) = Some t"
  proof -
    fix e assume "e \<in> set (edges f)"
    with assms have "downstream_task e \<in> fst ` set (tasks f)"
      by (auto simp: well_formed_def list_all_iff)
    then show "\<exists>t. map_of (tasks f) (downstream_task e) = Some t"
      by (metis domD dom_map_of_conv_image_fst)
  qed
  have "set (map (\<lambda>n. the (map_of (tasks f) n)) ?ns) = downs f (ref_name r)"
    using dom by (force simp: downs_def)
  with get_tasks_value [OF sub] show ?thesis
    by (simp add: downstream_tasks_def)
qed


text \<open>
  The invariant of the sorting loop over the working set \<open>S\<close>: the remaining tasks and
  the output partition \<open>S\<close>, and every task of the output comes after each of its
  upstream tasks that belongs to \<open>S\<close>.
\<close>

definition sort_inv :: "task set \<Rightarrow> flow \<Rightarrow> task list \<Rightarrow> task list \<Rightarrow> bool" where
  "sort_inv S f ts out =
     (distinct ts \<and> distinct out \<and> set ts \<inter> set out = {} \<and> set ts \<union> set out = S \<and>
      (\<forall>t \<in> set out. \<forall>u \<in> ups f (name t). u \<in> S \<longrightarrow>
          u \<in> set out \<and> position u out < position t out))"

lemma sort_inv_remove:
  assumes inv: "sort_inv S f ts out" and t: "t \<in> set ts"
    and free: "ups f (name t) \<inter> set ts = {}"
  shows "sort_inv S f (removeAll t ts) (out @ [t])"
proof -
  from inv have d: "distinct ts" "distinct out" and dis: "set ts \<inter> set out = {}"
    and un: "set ts \<union> set out = S"
    and ord: "\<And>x u. x \<in> set out \<Longrightarrow> u \<in> ups f (name x) \<Longrightarrow> u \<in> S \<Longrightarrow>
                 u \<in> set out \<and> position u out < position x out"
    by (auto simp: sort_inv_def)
  from t dis have tout: "t \<notin> set out" by auto
  have "distinct (removeAll t ts)" using d by (simp add: distinct_removeAll)
  moreover have "distinct (out @ [t])" using d tout by simp
  moreover have "set (removeAll t ts) \<inter> set (out @ [t]) = {}" using dis by auto
  moreover have "set (removeAll t ts) \<union> set (out @ [t]) = S" using un t by auto
  moreover have "\<forall>x \<in> set (out @ [t]). \<forall>u \<in> ups f (name x). u \<in> S \<longrightarrow>
      u \<in> set (out @ [t]) \<and> position u (out @ [t]) < position x (out @ [t])"
  proof (intro ballI impI)
    fix x u assume x: "x \<in> set (out @ [t])" and u: "u \<in> ups f (name x)" and uS: "u \<in> S"
    show "u \<in> set (out @ [t]) \<and> position u (out @ [t]) < position x (out @ [t])"
    proof (cases "x \<in> set out")
      case True
      from ord [OF True u uS] True show ?thesis by (simp add: position_append_in)
    next
      case False
      with x have xt: "x = t" by simp
      from u free xt have "u \<notin> set ts" by auto
      with uS un have uo: "u \<in> set out" by auto
      then have "position u (out @ [t]) < length out"
        by (simp add: position_append_in position_less)
      with uo tout xt show ?thesis by (simp add: position_append_notin)
    qed
  qed
  ultimately show ?thesis unfolding sort_inv_def by blast
qed

lemma sort_pass_correct:
  assumes wf: "well_formed f"
  shows "sort_inv S f ts out \<Longrightarrow> distinct rest \<Longrightarrow> set rest \<subseteq> set ts \<Longrightarrow>
         \<exists>ts' out' a'. sort_pass rest ts out a f = (Inr (ts', out', a'), f) \<and>
            sort_inv S f ts' out' \<and> set ts' \<subseteq> set ts \<and> (a \<longrightarrow> a') \<and>
            (\<not> a' \<longrightarrow> ts' = ts \<and> out' = out \<and> (\<forall>t \<in> set rest. ups f (name t) \<inter> set ts \<noteq> {}))"
proof (induction rest arbitrary: ts out a)
  case Nil
  then show ?case by simp
next
  case (Cons t rest)
  from upstream_tasks_value [OF wf, of "ByTask t"]
  obtain us where us: "upstream_tasks (ByTask t) f = (Inr us, f)" "set us = ups f (name t)"
    by auto
  have blocked: "list_ex (\<lambda>u. u \<in> set ts) us \<longleftrightarrow> ups f (name t) \<inter> set ts \<noteq> {}"
    using us(2) by (auto simp: list_ex_iff)
  show ?case
  proof (cases "ups f (name t) \<inter> set ts = {}")
    case False
    from Cons.prems have "distinct rest" "set rest \<subseteq> set ts" by auto
    from Cons.IH [OF Cons.prems(1) this, of a]
    obtain ts' out' a' where r: "sort_pass rest ts out a f = (Inr (ts', out', a'), f)"
      "sort_inv S f ts' out'" "set ts' \<subseteq> set ts" "a \<longrightarrow> a'"
      "\<not> a' \<longrightarrow> ts' = ts \<and> out' = out \<and> (\<forall>t \<in> set rest. ups f (name t) \<inter> set ts \<noteq> {})"
      by blast
    from us(1) blocked False r(1)
    have "sort_pass (t # rest) ts out a f = (Inr (ts', out', a'), f)" by simp
    with r(2-5) False show ?thesis by auto
  next
    case True
    from Cons.prems have t: "t \<in> set ts" by simp
    have inv': "sort_inv S f (removeAll t ts) (out @ [t])"
      using Cons.prems(1) t True by (rule sort_inv_remove)
    from Cons.prems have "distinct rest" "set rest \<subseteq> set (removeAll t ts)" by auto
    from Cons.IH [OF inv' this, of True]
    obtain ts' out' a' where
      r: "sort_pass rest (removeAll t ts) (out @ [t]) True f = (Inr (ts', out', a'), f)"
      "sort_inv S f ts' out'" "set ts' \<subseteq> set (removeAll t ts)" "a'"
      by blast
    from us(1) blocked True r(1)
    have "sort_pass (t # rest) ts out a f = (Inr (ts', out', a'), f)" by simp
    with r(2-4) show ?thesis by auto
  qed
qed

lemma stuck_cyclic:
  assumes wf: "well_formed f" and ne: "ts \<noteq> []"
    and stuck: "\<forall>t \<in> set ts. ups f (name t) \<inter> set ts \<noteq> {}"
  shows "\<not> acyclic (edge_rel f)"
proof
  assume ac: "acyclic (edge_rel f)"
  have "finite (edge_rel f)" by (simp add: edge_rel_def)
  with ac have "wf (edge_rel f)" by (simp add: finite_acyclic_wf)
  moreover from ne obtain t0 where "t0 \<in> set ts" by (cases ts) auto
  then have "name t0 \<in> name ` set ts" by simp
  ultimately obtain z where z: "z \<in> name ` set ts"
    and zmin: "\<And>y. (y, z) \<in> edge_rel f \<Longrightarrow> y \<notin> name ` set ts"
    by (rule wfE_min) blast
  from z obtain t where t: "t \<in> set ts" "z = name t" by auto
  with stuck obtain u where u: "u \<in> ups f (name t)" "u \<in> set ts" by blast
  from u(1) obtain e where e: "e \<in> set (edges f)" "downstream_task e = name t"
    "map_of (tasks f) (upstream_task e) = Some u" by (auto simp: ups_def)
  from wf_lookup(1) [OF wf e(3)] have "name u = upstream_task e" .
  with e t have "(name u, z) \<in> edge_rel f" by (force simp: edge_rel_def)
  from zmin [OF this] u(2) show False by simp
qed

lemma sort_loop_outcome:
  assumes wf: "well_formed f"
  shows "sort_inv S f ts out \<Longrightarrow>
         (\<exists>res. sort_loop ts out f = (Inr res, f) \<and> sort_inv S f [] res) \<or>
         (sort_loop ts out f = (Inl CycleError, f) \<and> \<not> acyclic (edge_rel f))"
proof (induction "length ts" arbitrary: ts out rule: less_induct)
  case less
  show ?case
  proof (cases "ts = []")
    case True
    with less.prems show ?thesis by (simp add: sort_loop.simps)
  next
    case False
    from less.prems have "distinct ts" by (simp add: sort_inv_def)
    from sort_pass_correct [OF wf less.prems this subset_refl, of False]
    obtain ts' out' a' where r: "sort_pass ts ts out False f = (Inr (ts', out', a'), f)"
      "sort_inv S f ts' out'"
      "\<not> a' \<longrightarrow> ts' = ts \<and> out' = out \<and> (\<forall>t \<in> set ts. ups f (name t) \<inter> set ts \<noteq> {})"
      by blast
    show ?thesis
    proof (cases a')
      case True
      with r(1) have "length ts' < length ts" by (auto dest: sort_pass_progress)
      from less.hyps [OF this r(2)] r(1) True False show ?thesis
        by (simp add: sort_loop.simps [of ts out f])
    next
      case no: False
      with r(3) have "\<forall>t \<in> set ts. ups f (name t) \<inter> set ts \<noteq> {}" by simp
      with wf False have "\<not> acyclic (edge_rel f)" by (rule stuck_cyclic)
      with r(1) no False show ?thesis by (simp add: sort_loop.simps [of ts out f])
    qed
  qed
qed

lemma sorted_acyclic:
  assumes wf: "well_formed f"
    and inv: "sort_inv (set (dict_values (tasks f))) f [] res"
  shows "acyclic (edge_rel f)"
proof (rule acyclicI_order [where f = "\<lambda>n. length res - position n (map name res)"])
  fix a b assume "(a, b) \<in> edge_rel f"
  then obtain e where e: "e \<in> set (edges f)" "a = upstream_task e" "b = downstream_task e"
    by (auto simp: edge_rel_def)
  from inv have res: "set res = set (dict_values (tasks f))" "distinct res"
    and ord: "\<And>x u. x \<in> set res \<Longrightarrow> u \<in> ups f (name x) \<Longrightarrow> u \<in> set res \<Longrightarrow>
                 position u res < position x res"
    by (auto simp: sort_inv_def)
  from wf e(1) have "a \<in> fst ` set (tasks f)" "b \<in> fst ` set (tasks f)"
    by (auto simp: well_formed_def list_all_iff e)
  then obtain u d where ud: "map_of (tasks f) a = Some u" "map_of (tasks f) b = Some d"
    by (metis domD dom_map_of_conv_image_fst)
  from wf_lookup [OF wf ud(1)] wf_lookup [OF wf ud(2)] res
  have n: "name u = a" "name d = b" and m: "u \<in> set res" "d \<in> set res" by auto
  from e ud n have "u \<in> ups f (name d)" by (auto simp: ups_def)
  from ord [OF m(2) this m(1)] have lt: "position u res < position d res" .
  from wf_values_distinct(2) [OF wf] res(1) have inj: "inj_on name (set res)" by simp
  with m have "position (name u) (map name res) = position u res"
    "position (name d) (map name res) = position d res"
    by (simp_all add: position_map_inj insert_absorb)
  moreover from m(2) have "position d res < length res" by (simp add: position_less)
  ultimately show "length res - position b (map name res) < length res - position a (map name res)"
    using lt n by simp
qed

text \<open>
  The scenario of the specification: tasks \<open>A\<close>, \<open>B\<close>, \<open>C\<close> with the edges
  \<open>A \<rightarrow> B\<close>, \<open>A \<rightarrow> C\<close> and \<open>B \<rightarrow> C\<close> (key \<open>b_result\<close>).
\<close>

definition task_A :: task where
  "task_A = \<lparr>ident = 1, name = ''A'', slug = ''a'', cls = PlainTask\<rparr>"

definition task_B :: task where
  "task_B = \<lparr>ident = 2, name = ''B'', slug = ''b'', cls = PlainTask\<rparr>"

definition task_C :: task where
  "task_C = \<lparr>ident = 3, name = ''C'', slug = ''c'', cls = Parameter True None\<rparr>"

definition example_flow :: flow where
  "example_flow =
     \<lparr>flow_name = ''Flow'', version = None, project = ''Flows'', description = None,
      schedule = ''NoSchedule'',
      tasks = [(''C'', task_C), (''A'', task_A), (''B'', task_B)],
      edges = [\<lparr>upstream_task = ''A'', downstream_task = ''B'', key = None\<rparr>,
               \<lparr>upstream_task = ''A'', downstream_task = ''C'', key = None\<rparr>,
               \<lparr>upstream_task = ''B'', downstream_task = ''C'', key = Some ''b_result''\<rparr>],
      concurrent_runs = None, cluster = None\<rparr>"

lemmas example_defs = example_flow_def task_A_def task_B_def task_C_def

lemmas eval_defs =
  sorted_tasks_def sorted_tasks_all_def sort_loop.simps upstream_tasks_def downstream_tasks_def
  get_task_def dict_values_def set_add_def set_update_def add_edge_def add_endpoint_def
  add_task_def isinstance_Task_def

lemma example_well_formed: "well_formed example_flow"
  by (simp add: well_formed_def example_defs)

lemma example_acyclic: "acyclic (edge_rel example_flow)"
  by (rule acyclicI_order [where f = "\<lambda>n. if n = ''A'' then 3 else if n = ''B'' then 2 else (1::nat)"])
     (auto simp: edge_rel_def example_defs)

lemma enumerates_id: "enumerates (\<lambda>xs. xs)"
  by (simp add: enumerates_def)

lemma example_sorted:
  "sorted_tasks (\<lambda>xs. xs) None example_flow = Some (Inr [task_A, task_B, task_C], example_flow)"
  by (simp add: eval_defs example_defs cong: prod.case_cong_weak sum.case_cong_weak)

lemma sort_inv_init:
  assumes "enumerates enum" and "distinct xs"
  shows "sort_inv (set xs) f (enum xs) []"
proof -
  from assms(1) have m: "mset (enum xs) = mset xs" by (simp add: enumerates_def)
  then have "set (enum xs) = set xs" by (rule mset_eq_setD)
  moreover from mset_eq_imp_distinct_iff [OF m] assms(2) have "distinct (enum xs)" by simp
  ultimately show ?thesis by (simp add: sort_inv_def)
qed

lemma sorted_tasks_all_outcome:
  assumes wf: "well_formed f" and en: "enumerates enum"
  shows "(\<exists>res. sorted_tasks_all enum f = (Inr res, f) \<and>
            sort_inv (set (dict_values (tasks f))) f [] res \<and> acyclic (edge_rel f)) \<or>
         (sorted_tasks_all enum f = (Inl CycleError, f) \<and> \<not> acyclic (edge_rel f))"
proof -
  let ?vs = "remdups (dict_values (tasks f))"
  have "sort_inv (set ?vs) f (enum ?vs) []" using en by (rule sort_inv_init) simp
  from sort_loop_outcome [OF wf this]
  consider res where "sort_loop (enum ?vs) [] f = (Inr res, f)"
      "sort_inv (set (dict_values (tasks f))) f [] res"
    | "sort_loop (enum ?vs) [] f = (Inl CycleError, f)" "\<not> acyclic (edge_rel f)"
    by auto
  then show ?thesis
  proof cases
    case 1
    from sorted_acyclic [OF wf 1(2)] 1 show ?thesis by (simp add: sorted_tasks_all_def)
  next
    case 2
    then show ?thesis by (simp add: sorted_tasks_all_def)
  qed
qed

text \<open>
  C1. For a well-formed flow and any iteration order of sets: when the edge relation is
  acyclic, \<^verbatim>\<open>sorted_tasks()\<close> returns a permutation of the tasks of the task dictionary
  in which, for every edge, the task named by \<^verbatim>\<open>upstream_task\<close> appears strictly before
  the task named by \<^verbatim>\<open>downstream_task\<close>; when it is cyclic the call raises
  \<open>CycleError\<close>; and in any state of the loop, a pass over a non-empty remaining set
  that removes no task makes the loop raise \<open>CycleError\<close>.
\<close>

theorem sorted_tasks_topological:
  assumes wf: "well_formed f" and en: "enumerates enum"
  shows "(acyclic (edge_rel f) \<longrightarrow>
            (\<exists>res. sorted_tasks enum None f = Some (Inr res, f) \<and>
               mset res = mset (dict_values (tasks f)) \<and>
               (\<forall>e \<in> set (edges f).
                  \<exists>u d. map_of (tasks f) (upstream_task e) = Some u \<and>
                        map_of (tasks f) (downstream_task e) = Some d \<and>
                        u \<in> set res \<and> d \<in> set res \<and> position u res < position d res))) \<and>
         (\<not> acyclic (edge_rel f) \<longrightarrow> sorted_tasks enum None f = Some (Inl CycleError, f)) \<and>
         (\<forall>ts out out' acyc g.
            ts \<noteq> [] \<and> sort_pass ts ts out False f = (Inr (ts, out', acyc), g) \<longrightarrow>
            sort_loop ts out f = (Inl CycleError, g))"
proof (intro conjI impI allI)
  assume ac: "acyclic (edge_rel f)"
  with sorted_tasks_all_outcome [OF wf en]
  obtain res where r: "sorted_tasks_all enum f = (Inr res, f)"
    and inv: "sort_inv (set (dict_values (tasks f))) f [] res"
    by blast
  from inv have res: "set res = set (dict_values (tasks f))" "distinct res"
    and ord: "\<And>x u. x \<in> set res \<Longrightarrow> u \<in> ups f (name x) \<Longrightarrow> u \<in> set res \<Longrightarrow>
                 position u res < position x res"
    by (auto simp: sort_inv_def)
  from res wf_values_distinct(1) [OF wf] have perm: "mset res = mset (dict_values (tasks f))"
    by (simp add: set_eq_iff_mset_eq_distinct)
  have "\<forall>e \<in> set (edges f).
          \<exists>u d. map_of (tasks f) (upstream_task e) = Some u \<and>
                map_of (tasks f) (downstream_task e) = Some d \<and>
                u \<in> set res \<and> d \<in> set res \<and> position u res < position d res"
  proof
    fix e assume e: "e \<in> set (edges f)"
    with wf have "upstream_task e \<in> fst ` set (tasks f)" "downstream_task e \<in> fst ` set (tasks f)"
      by (auto simp: well_formed_def list_all_iff)
    then obtain u d where ud: "map_of (tasks f) (upstream_task e) = Some u"
      "map_of (tasks f) (downstream_task e) = Some d"
      by (metis domD dom_map_of_conv_image_fst)
    from wf_lookup [OF wf ud(1)] wf_lookup [OF wf ud(2)] res
    have n: "name d = downstream_task e" and m: "u \<in> set res" "d \<in> set res" by auto
    from e ud n have "u \<in> ups f (name d)" by (auto simp: ups_def)
    from ord [OF m(2) this m(1)] ud m show "\<exists>u d. map_of (tasks f) (upstream_task e) = Some u \<and>
                map_of (tasks f) (downstream_task e) = Some d \<and>
                u \<in> set res \<and> d \<in> set res \<and> position u res < position d res" by blast
  qed
  moreover from r have "sorted_tasks enum None f = Some (Inr res, f)"
    by (simp add: sorted_tasks_def)
  ultimately show "\<exists>res. sorted_tasks enum None f = Some (Inr res, f) \<and>
               mset res = mset (dict_values (tasks f)) \<and>
               (\<forall>e \<in> set (edges f).
                  \<exists>u d. map_of (tasks f) (upstream_task e) = Some u \<and>
                        map_of (tasks f) (downstream_task e) = Some d \<and>
                        u \<in> set res \<and> d \<in> set res \<and> position u res < position d res)"
    using perm by (intro exI [of _ res] conjI)
next
  assume "\<not> acyclic (edge_rel f)"
  with sorted_tasks_all_outcome [OF wf en]
  show "sorted_tasks enum None f = Some (Inl CycleError, f)"
    by (auto simp: sorted_tasks_def)
next
  fix ts out out' acyc g
  assume a: "ts \<noteq> [] \<and> sort_pass ts ts out False f = (Inr (ts, out', acyc), g)"
  have "\<not> acyc"
  proof
    assume acyc
    with a have "length ts < length ts" by (auto dest: sort_pass_progress)
    then show False by simp
  qed
  with a show "sort_loop ts out f = (Inl CycleError, g)"
    by (simp add: sort_loop.simps [of ts out f])
qed

theorem sorted_tasks_topological_witness:
  "well_formed example_flow \<and> enumerates (\<lambda>xs. xs) \<and> acyclic (edge_rel example_flow) \<and>
   (\<exists>res. sorted_tasks (\<lambda>xs. xs) None example_flow = Some (Inr res, example_flow) \<and>
      mset res = mset (dict_values (tasks example_flow)) \<and>
      position task_A res < position task_B res \<and>
      position task_A res < position task_C res \<and>
      position task_B res < position task_C res)"
proof -
  note th = sorted_tasks_topological [OF example_well_formed enumerates_id, THEN conjunct1,
      rule_format, OF example_acyclic]
  then obtain res where
    r: "sorted_tasks (\<lambda>xs. xs) None example_flow = Some (Inr res, example_flow)"
    and p: "mset res = mset (dict_values (tasks example_flow))"
    and o: "\<forall>e \<in> set (edges example_flow).
                  \<exists>u d. map_of (tasks example_flow) (upstream_task e) = Some u \<and>
                        map_of (tasks example_flow) (downstream_task e) = Some d \<and>
                        u \<in> set res \<and> d \<in> set res \<and> position u res < position d res"
    by blast
  from o have "position task_A res < position task_B res \<and>
      position task_A res < position task_C res \<and>
      position task_B res < position task_C res"
    by (simp add: example_flow_def)
  with r p example_well_formed enumerates_id example_acyclic show ?thesis by blast
qed


definition cyclic_flow :: flow where
  "cyclic_flow =
     example_flow\<lparr>edges := edges example_flow @
        [\<lparr>upstream_task = ''C'', downstream_task = ''A'', key = None\<rparr>]\<rparr>"

theorem queries_leave_flow_unchanged_witness:
  "get_task ''Z'' cyclic_flow = (Inl NotFoundError, cyclic_flow) \<and>
   sorted_tasks (\<lambda>xs. xs) None cyclic_flow = Some (Inl CycleError, cyclic_flow) \<and>
   upstream_tasks (ByName ''C'') cyclic_flow = (Inr [task_A, task_B], cyclic_flow)"
proof -
  note q = queries_leave_flow_unchanged
    [of "''Z''" cyclic_flow "ByName ''C''" False "\<lambda>xs. xs" None]
  have a: "fst (get_task ''Z'' cyclic_flow) = Inl NotFoundError"
    by (simp add: get_task_def cyclic_flow_def example_defs)
  have b: "fst (sorted_tasks_all (\<lambda>xs. xs) cyclic_flow) = Inl CycleError"
    by (simp add: eval_defs cyclic_flow_def example_defs
        cong: prod.case_cong_weak sum.case_cong_weak)
  have c: "fst (upstream_tasks (ByName ''C'') cyclic_flow) = Inr [task_A, task_B]"
    by (simp add: upstream_tasks_def get_task_def cyclic_flow_def example_defs)
  from q a b c show ?thesis by (simp add: sorted_tasks_def prod_eq_iff)
qed

section \<open>Properties of the executor\<close>

lemma gather1_concrete: "concrete v \<Longrightarrow> gather1 v = v"
proof (induction v)
  case (Lst vs)
  then have "map gather1 vs = vs"
    by (induction vs) (auto simp: list_all_iff)
  then show ?case by simp
qed simp_all







text \<open>
  C3. \<^verbatim>\<open>submit\<close> on an executor that was never started raises nothing and returns
  \<^verbatim>\<open>None\<close>: both guards test \<^verbatim>\<open>is_started\<close> and the method has no \<^verbatim>\<open>else\<close> branch,
  whereas the sibling \<^verbatim>\<open>map\<close> raises "Executor must be started" in the same state.
\<close>

theorem submit_not_started_returns_None:
  "submit (DaskExecutor_init None False False) False d fn args = Inr None \<and>
   map_exec (DaskExecutor_init None False False) False d fn states = Inl NotStartedError"
  by (simp add: submit_def map_exec_def DaskExecutor_init_def)




text \<open>
  C9, as the code has it. \<^verbatim>\<open>wait([])\<close> returns the empty list on an executor whose
  client is bound, and raises \<open>AttributeError\<close> on every other executor: the first
  statement of the body reads \<^verbatim>\<open>self.client.futures\<close>.
\<close>

theorem wait_empty:
  "wait ex [] timeout = (if client ex = ClientObject then Inr [] else Inl AttributeError)"
  by (cases "client ex") (simp_all add: wait_def gather_def)

theorem wait_empty_witness:
  "wait (start_enter (DaskExecutor_init None False False)) [] None = (Inr [] :: error + nat dval list) \<and>
   wait (start_exit (start_enter (DaskExecutor_init None False False))) [] None
     = (Inl AttributeError :: error + nat dval list)"
  using wait_empty [of "start_enter (DaskExecutor_init None False False)" None]
        wait_empty [of "start_exit (start_enter (DaskExecutor_init None False False))" None]
  by (simp add: start_enter_def start_exit_def)

text \<open>
  C9, the claim as stated fails: on a freshly constructed executor \<^verbatim>\<open>wait([])\<close> raises
  \<open>AttributeError\<close>.
\<close>

theorem wait_empty_counterexample:
  "wait (DaskExecutor_init None False False) [] None = (Inl AttributeError :: error + nat dval list)"
  by (simp add: wait_def DaskExecutor_init_def)

end
